theory Spec2Isabelle
  imports Complex_Main "HOL-Library.AList"
begin

section \<open>Python values shared by the test utilities\<close>

text \<open>
  The exceptions the modelled functions of \<^verbatim>\<open>testutil.py\<close> can raise. A function that
  may raise returns a sum: \<open>Inl\<close> carries the exception, \<open>Inr\<close> the normal result.
\<close>

datatype exn = AssertionError | AttributeError | KeyError | ValueError | TypeError

text \<open>
  \<^verbatim>\<open>expected\<close> and \<^verbatim>\<open>not_expected\<close> are documented as iterables of strings. The two
  built-in sequence types are kept apart, because Python's \<^verbatim>\<open>==\<close> does: a list never
  compares equal to a tuple, nor to an iterator. Equality of this datatype is therefore
  Python's \<^verbatim>\<open>==\<close> on these values. \<open>PyIter\<close> is a one-shot iterable (an iterator, a
  generator, a \<^verbatim>\<open>map\<close> object) with the items it has yet to yield: iterating it, as
  \<^verbatim>\<open>set(...)\<close> and \<^verbatim>\<open>for\<close> do, yields them and leaves it exhausted, while a list or a
  tuple can be iterated again.
\<close>

datatype 'a iterable = PyList "'a list" | PyTuple "'a list" | PyIter "'a list"

text \<open>The items an iteration yields now, and the iterable as a full iteration leaves it.\<close>

fun elems :: "'a iterable \<Rightarrow> 'a list" where
  "elems (PyList xs) = xs"
| "elems (PyTuple xs) = xs"
| "elems (PyIter xs) = xs"

fun iterated :: "'a iterable \<Rightarrow> 'a iterable" where
  "iterated (PyList xs) = PyList xs"
| "iterated (PyTuple xs) = PyTuple xs"
| "iterated (PyIter xs) = PyIter []"

text \<open>\<^verbatim>\<open>eq_(a, b)\<close>: \<^verbatim>\<open>assert a == b\<close> (a name cannot end with an underscore here).\<close>

definition eq_assert :: "'a \<Rightarrow> 'a \<Rightarrow> exn + unit" where
  "eq_assert a b = (if a = b then Inr () else Inl AssertionError)"

text \<open>\<^verbatim>\<open>list.index(x)\<close>: the position of the first occurrence, \<^verbatim>\<open>ValueError\<close> when absent.\<close>

fun index :: "'a list \<Rightarrow> 'a \<Rightarrow> exn + nat" where
  "index [] x = Inl ValueError"
| "index (y # ys) x =
     (if y = x then Inr 0
      else (case index ys x of Inl e \<Rightarrow> Inl e | Inr i \<Rightarrow> Inr (Suc i)))"

section \<open>CallLogger\<close>

record CallLogger =
  calls :: "string list"

definition CallLogger_init :: CallLogger where
  "CallLogger_init = \<lparr>calls = []\<rparr>"

text \<open>\<^verbatim>\<open>__getattr__(func_name)\<close> returns a function that appends the name, whatever its arguments.\<close>

definition call :: "CallLogger \<Rightarrow> string \<Rightarrow> CallLogger" where
  "call self func_name = self\<lparr>calls := calls self @ [func_name]\<rparr>"

definition clear_calls :: "CallLogger \<Rightarrow> CallLogger" where
  "clear_calls self = self\<lparr>calls := []\<rparr>"

text \<open>
  Both checks return the outcome together with the logger as it is when the method returns or
  raises. A failed \<^verbatim>\<open>assert\<close> leaves the method at once, so the statements after it,
  \<^verbatim>\<open>self.clear_calls()\<close> among them, do not run.
\<close>

definition check_gui_calls ::
  "CallLogger \<Rightarrow> string iterable \<Rightarrow> bool \<Rightarrow> (exn + unit) \<times> CallLogger" where
  "check_gui_calls self expected verify_order =
     (case (if verify_order then eq_assert (PyList (calls self)) expected
            else eq_assert (set (calls self)) (set (elems expected))) of
        Inl e \<Rightarrow> (Inl e, self)
      | Inr _ \<Rightarrow> (Inr (), clear_calls self))"

text \<open>
  The loop of \<^verbatim>\<open>check_gui_calls_partial\<close> under \<^verbatim>\<open>verify_order\<close>, with
  \<^verbatim>\<open>max_index\<close> as the accumulator, over the items that \<^verbatim>\<open>for call in expected\<close>
  yields. \<^verbatim>\<open>expected\<close> is iterated twice, by \<^verbatim>\<open>set(expected)\<close> and then by the loop:
  the loop runs over what the first iteration left.
\<close>

fun check_order :: "string list \<Rightarrow> nat \<Rightarrow> string list \<Rightarrow> exn + unit" where
  "check_order cs max_index [] = Inr ()"
| "check_order cs max_index (c # expected) =
     (case index cs c of
        Inl e \<Rightarrow> Inl e
      | Inr i \<Rightarrow> if i < max_index then Inl AssertionError else check_order cs i expected)"

definition check_expected :: "string list \<Rightarrow> string iterable option \<Rightarrow> bool \<Rightarrow> exn + unit" where
  "check_expected cs expected verify_order =
     (case expected of
        None \<Rightarrow> Inr ()
      | Some e \<Rightarrow>
          (let not_called = set (elems e) - set cs;
               e1 = iterated e
           in if not_called \<noteq> {} then Inl AssertionError
              else if verify_order then check_order cs 0 (elems e1)
              else Inr ()))"

definition check_not_expected :: "string list \<Rightarrow> string iterable option \<Rightarrow> exn + unit" where
  "check_not_expected cs not_expected =
     (case not_expected of
        None \<Rightarrow> Inr ()
      | Some ne \<Rightarrow>
          (let called = set (elems ne) \<inter> set cs in
           if called \<noteq> {} then Inl AssertionError else Inr ()))"

definition check_gui_calls_partial ::
  "CallLogger \<Rightarrow> string iterable option \<Rightarrow> string iterable option \<Rightarrow> bool
     \<Rightarrow> (exn + unit) \<times> CallLogger" where
  "check_gui_calls_partial self expected not_expected verify_order =
     (case check_expected (calls self) expected verify_order of
        Inl e \<Rightarrow> (Inl e, self)
      | Inr _ \<Rightarrow>
          (case check_not_expected (calls self) not_expected of
             Inl e \<Rightarrow> (Inl e, self)
           | Inr _ \<Rightarrow> (Inr (), clear_calls self)))"

text \<open>The position of the first occurrence as a plain number, for stating properties.\<close>

definition first_index :: "'a list \<Rightarrow> 'a \<Rightarrow> nat" where
  "first_index xs x = length (takeWhile (\<lambda>y. y \<noteq> x) xs)"

text \<open>Whether an invocation returned normally.\<close>

definition passes :: "(exn + unit) \<times> CallLogger \<Rightarrow> bool" where
  "passes r = (fst r = Inr ())"

section \<open>Patcher\<close>

text \<open>
  Objects and modules are a store: each target has a namespace, an association list in
  insertion order as a Python \<^verbatim>\<open>dict\<close> is. \<open>'o\<close> is the type of object identities and
  \<open>'v\<close> the type of values, whose equality stands for Python's \<^verbatim>\<open>is\<close>.
  \<^verbatim>\<open>getattr\<close> raises \<^verbatim>\<open>AttributeError\<close> on a missing name; \<^verbatim>\<open>setattr\<close> rebinds
  the name in place or adds it at the end.
\<close>

type_synonym ('o, 'v) heap = "'o \<Rightarrow> (string \<times> 'v) list"

definition getattr :: "('o, 'v) heap \<Rightarrow> 'o \<Rightarrow> string \<Rightarrow> exn + 'v" where
  "getattr h target attrname =
     (case map_of (h target) attrname of None \<Rightarrow> Inl AttributeError | Some v \<Rightarrow> Inr v)"

definition setattr :: "('o, 'v) heap \<Rightarrow> 'o \<Rightarrow> string \<Rightarrow> 'v \<Rightarrow> ('o, 'v) heap" where
  "setattr h target attrname v = h(target := AList.update attrname v (h target))"

record ('o, 'v) Patcher =
  patched :: "('o \<times> string \<times> 'v) list"
  patched_osstat :: "(string \<times> int list) list"
  target_module :: "'o option"

definition Patcher_init :: "'o option \<Rightarrow> ('o, 'v) Patcher" where
  "Patcher_init tm = \<lparr>patched = [], patched_osstat = [], target_module = tm\<rparr>"

text \<open>
  \<^verbatim>\<open>patch\<close> and its loop over \<^verbatim>\<open>self._target_module.__dict__.items()\<close>. The keys
  are those of the module when the loop starts (rebinding an existing name does not change
  them); each value is read when its key is reached, as the dictionary view does.
\<close>

function patch ::
  "('o, 'v) Patcher \<Rightarrow> ('o, 'v) heap \<Rightarrow> 'o \<Rightarrow> string \<Rightarrow> 'v
     \<Rightarrow> exn + ('o, 'v) Patcher \<times> ('o, 'v) heap"
and patch_aliases ::
  "('o, 'v) Patcher \<Rightarrow> ('o, 'v) heap \<Rightarrow> 'v \<Rightarrow> 'v \<Rightarrow> string list
     \<Rightarrow> exn + ('o, 'v) Patcher \<times> ('o, 'v) heap"
where
  "patch self h target attrname replace_with =
     (case getattr h target attrname of
        Inl e \<Rightarrow> Inl e
      | Inr oldvalue \<Rightarrow>
          (let self1 = self\<lparr>patched := patched self @ [(target, attrname, oldvalue)]\<rparr>;
               h1 = setattr h target attrname replace_with
           in (case target_module self1 of
                 None \<Rightarrow> Inr (self1, h1)
               | Some m \<Rightarrow>
                   if m \<noteq> target
                   then patch_aliases self1 h1 oldvalue replace_with (map fst (h1 m))
                   else Inr (self1, h1))))"
| "patch_aliases self h oldvalue replace_with [] = Inr (self, h)"
| "patch_aliases self h oldvalue replace_with (key # keys) =
     (case target_module self of
        None \<Rightarrow> Inl AttributeError
      | Some m \<Rightarrow>
          if getattr h m key = Inr oldvalue
          then (case patch self h m key replace_with of
                  Inl e \<Rightarrow> Inl e
                | Inr (self', h') \<Rightarrow> patch_aliases self' h' oldvalue replace_with keys)
          else patch_aliases self h oldvalue replace_with keys)"
  by pat_completeness auto
termination
  by (relation "measures
        [\<lambda>x. case x of
                Inl (self, h, target, a, v) \<Rightarrow>
                  (if target_module self \<noteq> None \<and> target_module self \<noteq> Some target
                   then 2 else 0)
              | Inr _ \<Rightarrow> 1,
         \<lambda>x. case x of Inl _ \<Rightarrow> 0 | Inr (self, h, ov, rw, keys) \<Rightarrow> length keys]")
     auto

declare patch.simps [simp del]

text \<open>
  \<^verbatim>\<open>unpatch\<close> writes the recorded values back, last record first. It returns the patcher
  as well: the method does not touch \<^verbatim>\<open>self._patched\<close>.
\<close>

definition restore :: "('o, 'v) heap \<Rightarrow> ('o \<times> string \<times> 'v) list \<Rightarrow> ('o, 'v) heap" where
  "restore h records =
     foldl (\<lambda>h (target, attrname, old_value). setattr h target attrname old_value) h records"

definition unpatch ::
  "('o, 'v) Patcher \<Rightarrow> ('o, 'v) heap \<Rightarrow> ('o, 'v) Patcher \<times> ('o, 'v) heap" where
  "unpatch self h = (self, restore h (rev (patched self)))"

definition enter :: "('o, 'v) Patcher \<Rightarrow> ('o, 'v) Patcher" where
  "enter self = self"

text \<open>\<^verbatim>\<open>__exit__\<close> returns \<^verbatim>\<open>False\<close> with the state \<^verbatim>\<open>unpatch\<close> leaves.\<close>

definition exit ::
  "('o, 'v) Patcher \<Rightarrow> ('o, 'v) heap \<Rightarrow> exn option
     \<Rightarrow> bool \<times> ('o, 'v) Patcher \<times> ('o, 'v) heap" where
  "exit self h exc = (case unpatch self h of (self', h') \<Rightarrow> (False, self', h'))"

text \<open>
  The statement \<^verbatim>\<open>with Patcher(tm) as p: body\<close>, by the semantics of Python's
  \<^verbatim>\<open>with\<close>: the manager is built and entered, the body runs on what \<^verbatim>\<open>__enter__\<close>
  returned, \<^verbatim>\<open>__exit__\<close> is called with the exception of the body (or none), and that
  exception is raised again unless \<^verbatim>\<open>__exit__\<close> returned a true value.
\<close>

definition with_Patcher ::
  "'o option \<Rightarrow> (('o, 'v) Patcher \<Rightarrow> ('o, 'v) heap \<Rightarrow> (exn + unit) \<times> ('o, 'v) Patcher \<times> ('o, 'v) heap)
     \<Rightarrow> ('o, 'v) heap \<Rightarrow> (exn + unit) \<times> ('o, 'v) Patcher \<times> ('o, 'v) heap" where
  "with_Patcher tm body h =
     (let p = enter (Patcher_init tm) in
      case body p h of (r, p1, h1) \<Rightarrow>
        (case exit p1 h1 (case r of Inl e \<Rightarrow> Some e | Inr _ \<Rightarrow> None) of
           (suppress, p2, h2) \<Rightarrow>
             (case r of
                Inl e \<Rightarrow> if suppress then (Inr (), p2, h2) else (Inl e, p2, h2)
              | Inr _ \<Rightarrow> (Inr (), p2, h2))))"

text \<open>A run of \<^verbatim>\<open>patch\<close> calls on one patcher, stopping at the first that raises.\<close>

fun patch_calls ::
  "('o, 'v) Patcher \<Rightarrow> ('o, 'v) heap \<Rightarrow> ('o \<times> string \<times> 'v) list
     \<Rightarrow> exn + ('o, 'v) Patcher \<times> ('o, 'v) heap" where
  "patch_calls self h [] = Inr (self, h)"
| "patch_calls self h ((target, attrname, replace_with) # rest) =
     (case patch self h target attrname replace_with of
        Inl e \<Rightarrow> Inl e
      | Inr (self', h') \<Rightarrow> patch_calls self' h' rest)"

subsection \<open>patch_today\<close>

text \<open>
  \<^verbatim>\<open>datetime.date\<close> of the standard library: the constructor checks its arguments and
  raises \<^verbatim>\<open>ValueError\<close>; subtracting two dates gives the difference of their proleptic
  Gregorian ordinals, in days.
\<close>

datatype date = Date (year: int) (month: int) (day: int)

definition is_leap :: "int \<Rightarrow> bool" where
  "is_leap y = (y mod 4 = 0 \<and> (y mod 100 \<noteq> 0 \<or> y mod 400 = 0))"

definition days_in_month :: "int \<Rightarrow> int \<Rightarrow> int" where
  "days_in_month y m =
     (if m = 2 \<and> is_leap y then 29
      else [31, 28, 31, 30, 31, 30, 31, 31, 30, 31, 30, 31] ! nat (m - 1))"

definition days_before_year :: "int \<Rightarrow> int" where
  "days_before_year y = (let y1 = y - 1 in y1 * 365 + y1 div 4 - y1 div 100 + y1 div 400)"

definition days_before_month :: "int \<Rightarrow> int \<Rightarrow> int" where
  "days_before_month y m =
     [0, 31, 59, 90, 120, 151, 181, 212, 243, 273, 304, 334] ! nat (m - 1)
       + (if m > 2 \<and> is_leap y then 1 else 0)"

definition toordinal :: "date \<Rightarrow> int" where
  "toordinal d = days_before_year (year d) + days_before_month (year d) (month d) + day d"

definition date :: "int \<Rightarrow> int \<Rightarrow> int \<Rightarrow> exn + date" where
  "date y m d =
     (if \<not> (1 \<le> y \<and> y \<le> 9999) then Inl ValueError
      else if \<not> (1 \<le> m \<and> m \<le> 12) then Inl ValueError
      else if \<not> (1 \<le> d \<and> d \<le> days_in_month y m) then Inl ValueError
      else Inr (Date y m d))"

text \<open>\<^verbatim>\<open>(a - b).days\<close>.\<close>

definition delta_days :: "date \<Rightarrow> date \<Rightarrow> int" where
  "delta_days a b = toordinal a - toordinal b"

text \<open>
  The store \<^verbatim>\<open>patch_today\<close> works on holds the module \<^verbatim>\<open>time\<close>, and among its values
  the built-in \<^verbatim>\<open>time.time\<close> and the closure \<^verbatim>\<open>lambda: time_now - (delta.days * 24 * 60 * 60)\<close>
  with the two variables it captures. \<open>'f\<close> is the type of Python's floats, and the
  subtraction of an integer from a float, which rounds, is the parameter \<open>fsub\<close> of the
  model: nothing is assumed of it.
\<close>

datatype 'o pyobject = Module_time | Object 'o

datatype ('f, 'v) pyvalue = Builtin_time | Lambda_today 'f int | Value 'v

text \<open>
  \<^verbatim>\<open>time.time()\<close>, evaluated at a moment when the clock of the machine shows \<open>clock\<close>:
  the name is looked up in the module and the value found is called. The closure computes
  its subtraction at each call, from the values it captured.
\<close>

definition time_time ::
  "('f \<Rightarrow> int \<Rightarrow> 'f) \<Rightarrow> ('o pyobject, ('f, 'v) pyvalue) heap \<Rightarrow> 'f \<Rightarrow> exn + 'f" where
  "time_time fsub h clock =
     (case getattr h Module_time ''time'' of
        Inl e \<Rightarrow> Inl e
      | Inr Builtin_time \<Rightarrow> Inr clock
      | Inr (Lambda_today time_now days) \<Rightarrow> Inr (fsub time_now (days * 24 * 60 * 60))
      | Inr (Value _) \<Rightarrow> Inl TypeError)"

text \<open>
  \<^verbatim>\<open>Patcher.patch_today\<close>. What \<^verbatim>\<open>datetime.date.today()\<close> returns is the input
  \<open>today\<close>, and \<open>clock\<close> is what the clock of the machine shows at the call.
\<close>

definition patch_today ::
  "('f \<Rightarrow> int \<Rightarrow> 'f)
     \<Rightarrow> ('o pyobject, ('f, 'v) pyvalue) Patcher \<Rightarrow> ('o pyobject, ('f, 'v) pyvalue) heap
     \<Rightarrow> date \<Rightarrow> 'f \<Rightarrow> int \<Rightarrow> int \<Rightarrow> int
     \<Rightarrow> exn + ('o pyobject, ('f, 'v) pyvalue) Patcher \<times> ('o pyobject, ('f, 'v) pyvalue) heap" where
  "patch_today fsub self h today clock y m d =
     (case date y m d of
        Inl e \<Rightarrow> Inl e
      | Inr new_today \<Rightarrow>
          (case time_time fsub h clock of
             Inl e \<Rightarrow> Inl e
           | Inr time_now \<Rightarrow>
               (let delta = delta_days today new_today in
                patch self h Module_time ''time'' (Lambda_today time_now delta))))"

section \<open>Argument unification\<close>

datatype pyval = VInt int | VStr string | VNone | VTuple "pyval list" | VRef nat

text \<open>
  What \<^verbatim>\<open>_unify_args\<close> reads of \<^verbatim>\<open>func\<close>. A callable with \<^verbatim>\<open>__code__\<close> is a
  \<open>Function\<close> with \<^verbatim>\<open>__self__\<close> (absent, or a value), \<^verbatim>\<open>__defaults__\<close>
  (\<^verbatim>\<open>None\<close>, or a tuple), \<^verbatim>\<open>__code__.co_argcount\<close> and \<^verbatim>\<open>__code__.co_varnames\<close>;
  one without is \<open>Opaque\<close>.
\<close>

datatype callable =
    Function (self_attr: "pyval option") (defaults_attr: "pyval list option")
             (co_argcount: nat) (co_varnames: "string list")
  | Opaque

text \<open>The slice \<^verbatim>\<open>xs[i:]\<close>, for any integer \<open>i\<close>.\<close>

definition slice_from :: "'a list \<Rightarrow> int \<Rightarrow> 'a list" where
  "slice_from xs i =
     (let n = int (length xs);
          start = (if i < 0 then max (n + i) 0 else min i n)
      in drop (nat start) xs)"

definition setdefault :: "(string \<rightharpoonup> pyval) \<Rightarrow> string \<Rightarrow> pyval \<Rightarrow> (string \<rightharpoonup> pyval)" where
  "setdefault result k v = (if result k = None then result(k \<mapsto> v) else result)"

fun setdefaults :: "(string \<rightharpoonup> pyval) \<Rightarrow> (string \<times> pyval) list \<Rightarrow> (string \<rightharpoonup> pyval)" where
  "setdefaults result [] = result"
| "setdefaults result ((arg_name, arg) # rest) = setdefaults (setdefault result arg_name arg) rest"

text \<open>\<^verbatim>\<open>del result[kw]\<close> for each name to ignore: \<^verbatim>\<open>KeyError\<close> on a name that is not there.\<close>

fun del_keys :: "(string \<rightharpoonup> pyval) \<Rightarrow> string list \<Rightarrow> exn + (string \<rightharpoonup> pyval)" where
  "del_keys result [] = Inr result"
| "del_keys result (kw # kws) =
     (if result kw = None then Inl KeyError else del_keys (result(kw := None)) kws)"

definition unify_args ::
  "callable \<Rightarrow> pyval list \<Rightarrow> (string \<rightharpoonup> pyval) \<Rightarrow> string list option
     \<Rightarrow> exn + (string \<rightharpoonup> pyval)" where
  "unify_args func args kwargs args_to_ignore =
     (let result =
        (case func of
           Function slf dflts arg_count arg_names \<Rightarrow>
             (let args1 = (case slf of
                             None \<Rightarrow> args
                           | Some s \<Rightarrow> if s \<noteq> VNone then s # args else args);
                  defaults = (case dflts of None \<Rightarrow> [] | Some ds \<Rightarrow> ds);
                  args2 = (if length args1 < arg_count
                           then (let required_arg_count = arg_count - length args1
                                 in args1 @ slice_from defaults (- int required_arg_count))
                           else args1)
              in setdefaults kwargs (zip arg_names args2))
         | Opaque \<Rightarrow> kwargs(''args'' \<mapsto> VTuple args))
      in (case args_to_ignore of
            None \<Rightarrow> Inr result
          | Some [] \<Rightarrow> Inr result
          | Some (kw # kws) \<Rightarrow> del_keys result (kw # kws)))"

section \<open>Properties of CallLogger\<close>

lemma index_first_index: "c \<in> set cs \<Longrightarrow> index cs c = Inr (first_index cs c)"
  by (induction cs) (auto simp: first_index_def)

lemma check_order_sorted:
  "set es \<subseteq> set cs \<Longrightarrow>
     check_order cs m es = Inr () \<longleftrightarrow> sorted (m # map (first_index cs) es)"
proof (induction es arbitrary: m)
  case Nil
  then show ?case by simp
next
  case (Cons e es)
  then have e: "index cs e = Inr (first_index cs e)" and es: "set es \<subseteq> set cs"
    by (simp_all add: index_first_index)
  have "check_order cs m (e # es) = Inr () \<longleftrightarrow>
          m \<le> first_index cs e \<and> check_order cs (first_index cs e) es = Inr ()"
    by (simp add: e)
  also have "\<dots> \<longleftrightarrow> m \<le> first_index cs e \<and> sorted (first_index cs e # map (first_index cs) es)"
    by (simp only: Cons.IH [OF es])
  also have "\<dots> \<longleftrightarrow> sorted (m # map (first_index cs) (e # es))"
    by (simp only: list.map sorted2)
  finally show ?case .
qed

lemma elems_iterated: "set (elems (iterated e)) \<subseteq> set (elems e)"
  by (cases e) simp_all

lemma check_expected_iff:
  "check_expected cs expected verify_order = Inr () \<longleftrightarrow>
     (case expected of
        None \<Rightarrow> True
      | Some e \<Rightarrow> set (elems e) \<subseteq> set cs \<and>
                  (verify_order \<longrightarrow> sorted (map (first_index cs) (elems (iterated e)))))"
proof (cases expected)
  case None
  then show ?thesis by (simp add: check_expected_def)
next
  case (Some e)
  show ?thesis
  proof (cases "set (elems e) \<subseteq> set cs")
    case True
    then have "set (elems (iterated e)) \<subseteq> set cs"
      using elems_iterated [of e] by blast
    then have "check_order cs 0 (elems (iterated e)) = Inr () \<longleftrightarrow>
                 sorted (map (first_index cs) (elems (iterated e)))"
      by (simp add: check_order_sorted)
    then show ?thesis using Some True by (auto simp: check_expected_def Let_def)
  next
    case False
    then show ?thesis using Some by (auto simp: check_expected_def Let_def)
  qed
qed

lemma check_not_expected_iff:
  "check_not_expected cs not_expected = Inr () \<longleftrightarrow>
     (case not_expected of None \<Rightarrow> True | Some ne \<Rightarrow> set (elems ne) \<inter> set cs = {})"
  by (auto simp: check_not_expected_def split: option.splits)

text \<open>
  C1. The claim says the log is empty after either check, whether it returned or raised. In
  the source \<^verbatim>\<open>clear_calls()\<close> is the last statement of each method and no
  \<^verbatim>\<open>try/finally\<close> surrounds the assertions, so a failed check leaves the log as it was:
  here the log \<^verbatim>\<open>['a']\<close> checked against \<^verbatim>\<open>['b']\<close> is still \<^verbatim>\<open>['a']\<close> after
  either method raised.
\<close>

theorem check_keeps_log_on_failure:
  "check_gui_calls \<lparr>calls = [''a'']\<rparr> (PyList [''b'']) False
     = (Inl AssertionError, \<lparr>calls = [''a'']\<rparr>)
   \<and> check_gui_calls_partial \<lparr>calls = [''a'']\<rparr> (Some (PyList [''b''])) None False
     = (Inl AssertionError, \<lparr>calls = [''a'']\<rparr>)"
  by (simp add: check_gui_calls_def check_gui_calls_partial_def eq_assert_def check_expected_def)

text \<open>
  C1, amended. After \<^verbatim>\<open>check_gui_calls\<close> or \<^verbatim>\<open>check_gui_calls_partial\<close> returns
  normally the log is empty; when the check fails, the method raises and the logger is
  unchanged.
\<close>

theorem check_clears_log_when_it_passes:
  "(passes (check_gui_calls self expected verify_order)
      \<longrightarrow> calls (snd (check_gui_calls self expected verify_order)) = [])
   \<and> (\<not> passes (check_gui_calls self expected verify_order)
      \<longrightarrow> snd (check_gui_calls self expected verify_order) = self)
   \<and> (passes (check_gui_calls_partial self expected' not_expected verify_order)
      \<longrightarrow> calls (snd (check_gui_calls_partial self expected' not_expected verify_order)) = [])
   \<and> (\<not> passes (check_gui_calls_partial self expected' not_expected verify_order)
      \<longrightarrow> snd (check_gui_calls_partial self expected' not_expected verify_order) = self)"
  by (auto simp: passes_def check_gui_calls_def check_gui_calls_partial_def clear_calls_def
           split: sum.splits)

theorem check_clears_log_when_it_passes_witness:
  "passes (check_gui_calls \<lparr>calls = [''a'', ''b'']\<rparr> (PyList [''b'', ''a'']) False)
   \<and> calls (snd (check_gui_calls \<lparr>calls = [''a'', ''b'']\<rparr> (PyList [''b'', ''a'']) False)) = []
   \<and> passes (check_gui_calls_partial \<lparr>calls = [''a'', ''b'']\<rparr> (Some (PyList [''a''])) None False)
   \<and> calls (snd (check_gui_calls_partial \<lparr>calls = [''a'', ''b'']\<rparr> (Some (PyList [''a''])) None False)) = []
   \<and> \<not> passes (check_gui_calls \<lparr>calls = [''a'', ''b'']\<rparr> (PyList [''b'', ''a'']) True)
   \<and> snd (check_gui_calls \<lparr>calls = [''a'', ''b'']\<rparr> (PyList [''b'', ''a'']) True)
       = \<lparr>calls = [''a'', ''b'']\<rparr>
   \<and> \<not> passes (check_gui_calls_partial \<lparr>calls = [''a'', ''b'']\<rparr> (Some (PyList [''c''])) None True)
   \<and> snd (check_gui_calls_partial \<lparr>calls = [''a'', ''b'']\<rparr> (Some (PyList [''c''])) None True)
       = \<lparr>calls = [''a'', ''b'']\<rparr>"
  using check_clears_log_when_it_passes
          [of "\<lparr>calls = [''a'', ''b'']\<rparr>" "PyList [''b'', ''a'']" False "Some (PyList [''a''])" None]
        check_clears_log_when_it_passes
          [of "\<lparr>calls = [''a'', ''b'']\<rparr>" "PyList [''b'', ''a'']" True "Some (PyList [''c''])" None]
  by (simp add: passes_def check_gui_calls_def check_gui_calls_partial_def eq_assert_def
        check_expected_def check_not_expected_def insert_commute)

text \<open>
  What \<^verbatim>\<open>check_gui_calls\<close> decides. Without \<^verbatim>\<open>verify_order\<close> both sides go through
  \<^verbatim>\<open>set(...)\<close>, so any iterable with the same names passes. With \<^verbatim>\<open>verify_order\<close> the
  log, a list, is compared to \<^verbatim>\<open>expected\<close> itself: only a list with the same names in
  the same order passes.
\<close>

lemma check_gui_calls_unordered_iff:
  "passes (check_gui_calls self expected False) \<longleftrightarrow> set (calls self) = set (elems expected)"
  by (simp add: passes_def check_gui_calls_def eq_assert_def)

lemma check_gui_calls_ordered_iff:
  "passes (check_gui_calls self expected True) \<longleftrightarrow> expected = PyList (calls self)"
  by (auto simp: passes_def check_gui_calls_def eq_assert_def)

text \<open>
  C4. The claim holds for every iterable when the order is not verified, and for every list
  when it is. For an expected tuple holding exactly the recorded names in the recorded order,
  the check with \<^verbatim>\<open>verify_order=True\<close> raises, where the claim says it passes: the branch
  compares the list \<^verbatim>\<open>self.calls\<close> with the tuple, which Python never finds equal, while
  the branch without order converts its argument. The same tuple passes without
  \<^verbatim>\<open>verify_order\<close>.
\<close>

theorem check_gui_calls_ordered_tuple:
  "elems (PyTuple [''a'', ''b'']) = calls \<lparr>calls = [''a'', ''b'']\<rparr>
   \<and> check_gui_calls \<lparr>calls = [''a'', ''b'']\<rparr> (PyTuple [''a'', ''b'']) True
       = (Inl AssertionError, \<lparr>calls = [''a'', ''b'']\<rparr>)
   \<and> check_gui_calls \<lparr>calls = [''a'', ''b'']\<rparr> (PyTuple [''a'', ''b'']) False
       = (Inr (), \<lparr>calls = []\<rparr>)"
  by (simp add: check_gui_calls_def eq_assert_def clear_calls_def)

text \<open>
  What \<^verbatim>\<open>check_gui_calls_partial\<close> decides, for every iterable: every expected name was
  recorded, the positions of the first occurrences of the names the loop runs over do not
  decrease if \<^verbatim>\<open>verify_order\<close> is set, and no name of \<^verbatim>\<open>not_expected\<close> was recorded; an
  argument left at \<^verbatim>\<open>None\<close> asks nothing. The loop runs over \<^verbatim>\<open>expected\<close> as
  \<^verbatim>\<open>set(expected)\<close> left it.
\<close>

lemma check_gui_calls_partial_passes_iff:
  "passes (check_gui_calls_partial self expected not_expected verify_order) \<longleftrightarrow>
     (case expected of
        None \<Rightarrow> True
      | Some e \<Rightarrow> set (elems e) \<subseteq> set (calls self) \<and>
                  (verify_order \<longrightarrow>
                     sorted (map (first_index (calls self)) (elems (iterated e)))))
     \<and> (case not_expected of
          None \<Rightarrow> True
        | Some ne \<Rightarrow> set (elems ne) \<inter> set (calls self) = {})"
proof -
  have "passes (check_gui_calls_partial self expected not_expected verify_order) \<longleftrightarrow>
          check_expected (calls self) expected verify_order = Inr () \<and>
          check_not_expected (calls self) not_expected = Inr ()"
    by (auto simp: passes_def check_gui_calls_partial_def split: sum.splits)
  then show ?thesis
    by (simp only: check_expected_iff check_not_expected_iff)
qed

text \<open>
  For an expected list or tuple, which a second iteration reads again in full, this is the
  criterion of the claim: the first occurrences of the expected names do not decrease along
  \<^verbatim>\<open>expected\<close>.
\<close>

lemma check_gui_calls_partial_sequence_iff:
  assumes "expected = PyList es \<or> expected = PyTuple es"
  shows "passes (check_gui_calls_partial self (Some expected) not_expected verify_order) \<longleftrightarrow>
     set es \<subseteq> set (calls self)
     \<and> (verify_order \<longrightarrow> sorted (map (first_index (calls self)) es))
     \<and> (case not_expected of
          None \<Rightarrow> True
        | Some ne \<Rightarrow> set (elems ne) \<inter> set (calls self) = {})"
  using assms by (auto simp: check_gui_calls_partial_passes_iff)

text \<open>The examples of the claim, which pass lists.\<close>

lemma check_gui_calls_partial_examples:
  "passes (check_gui_calls_partial \<lparr>calls = [''x'', ''a'', ''y'', ''b'']\<rparr>
             (Some (PyList [''a'', ''b''])) None False)
   \<and> passes (check_gui_calls_partial \<lparr>calls = [''x'', ''a'', ''y'', ''b'']\<rparr>
             (Some (PyList [''a'', ''b''])) None True)
   \<and> passes (check_gui_calls_partial \<lparr>calls = [''b'', ''a'']\<rparr>
             (Some (PyList [''a'', ''b''])) None False)
   \<and> \<not> passes (check_gui_calls_partial \<lparr>calls = [''b'', ''a'']\<rparr>
             (Some (PyList [''a'', ''b''])) None True)
   \<and> \<not> passes (check_gui_calls_partial \<lparr>calls = [''c'']\<rparr> None (Some (PyList [''c''])) False)"
  by (simp add: check_gui_calls_partial_passes_iff first_index_def)

text \<open>
  C5. The claim holds for an expected list or tuple. For a one-shot iterable it fails:
  \<^verbatim>\<open>set(expected)\<close> exhausts it and \<^verbatim>\<open>for call in expected\<close> then runs over nothing, so
  the order is not verified. With the calls \<^verbatim>\<open>['b', 'a']\<close> recorded, the expected names
  \<^verbatim>\<open>'a'\<close> then \<^verbatim>\<open>'b'\<close> first occur at positions 1 and 0, out of order: given as a list
  the check raises, as the claim says; given as \<^verbatim>\<open>iter(['a', 'b'])\<close> it returns normally.
\<close>

theorem check_gui_calls_partial_one_shot:
  "map (first_index [''b'', ''a'']) [''a'', ''b''] = [1, 0]
   \<and> check_gui_calls_partial \<lparr>calls = [''b'', ''a'']\<rparr> (Some (PyList [''a'', ''b''])) None True
       = (Inl AssertionError, \<lparr>calls = [''b'', ''a'']\<rparr>)
   \<and> check_gui_calls_partial \<lparr>calls = [''b'', ''a'']\<rparr> (Some (PyIter [''a'', ''b''])) None True
       = (Inr (), \<lparr>calls = []\<rparr>)"
  by (simp add: first_index_def check_gui_calls_partial_def check_expected_def
        check_not_expected_def clear_calls_def insert_commute)

section \<open>Properties of Patcher\<close>

text \<open>Reading and writing the store, and writing a list of records back.\<close>

lemma setattr_same: "getattr h t a = Inr v \<Longrightarrow> setattr h t a v = h"
  by (auto simp: getattr_def setattr_def update_triv split: option.splits)

lemma setattr_twice: "setattr (setattr h t a v) t a w = setattr h t a w"
  by (simp add: setattr_def)

lemma getattr_setattr:
  "getattr (setattr h t a v) t' a' = (if t' = t \<and> a' = a then Inr v else getattr h t' a')"
  by (simp add: getattr_def setattr_def update_conv')

lemma setattr_other: "t' \<noteq> t \<Longrightarrow> setattr h t a v t' = h t'"
  by (simp add: setattr_def)

lemma restore_snoc: "restore h (rs @ [(t, a, v)]) = setattr (restore h rs) t a v"
  by (simp add: restore_def)

lemma restore_Cons: "restore h ((t, a, v) # rs) = restore (setattr h t a v) rs"
  by (simp add: restore_def)

lemma restore_Nil: "restore h [] = h"
  by (simp add: restore_def)

lemma restore_append: "restore h (rs @ rs') = restore (restore h rs) rs'"
  by (simp add: restore_def)

text \<open>
  Without a target module, or on the target module itself, \<^verbatim>\<open>patch\<close> records and rebinds
  one name and scans nothing.
\<close>

lemma patch_plain:
  assumes "target_module self = None \<or> target_module self = Some t"
  shows "patch self h t a v =
           (case getattr h t a of
              Inl e \<Rightarrow> Inl e
            | Inr old \<Rightarrow> Inr (self\<lparr>patched := patched self @ [(t, a, old)]\<rparr>, setattr h t a v))"
  using assms by (auto simp: patch.simps split: sum.splits)

text \<open>
  The stack discipline: the records one call appends, written back last first, undo what the
  call did to the store. The loop over the target module touches that module only and cannot
  raise, since it patches names it has just read.
\<close>

lemma patch_aliases_stack:
  assumes "target_module self = Some m"
    and "patch_aliases self h ov rw keys = Inr (self', h')"
  shows "target_module self' = Some m
         \<and> (\<exists>new. patched self' = patched self @ new \<and> restore h' (rev new) = h)
         \<and> (\<forall>t. t \<noteq> m \<longrightarrow> h' t = h t)"
  using assms
proof (induction keys arbitrary: self h)
  case Nil
  then show ?case by (auto simp: restore_Nil)
next
  case (Cons key keys)
  show ?case
  proof (cases "getattr h m key = Inr ov")
    case True
    let ?s = "self\<lparr>patched := patched self @ [(m, key, ov)]\<rparr>"
    let ?h = "setattr h m key rw"
    have step: "patch self h m key rw = Inr (?s, ?h)"
      using Cons.prems(1) True by (simp add: patch_plain)
    have rest: "patch_aliases ?s ?h ov rw keys = Inr (self', h')"
      using Cons.prems True step by simp
    have tm: "target_module ?s = Some m" using Cons.prems(1) by simp
    from Cons.IH [OF tm rest] obtain new where
      a: "target_module self' = Some m" and
      b: "patched self' = patched ?s @ new" and
      c: "restore h' (rev new) = ?h" and
      d: "\<forall>t. t \<noteq> m \<longrightarrow> h' t = ?h t" by blast
    have "patched self' = patched self @ ((m, key, ov) # new)" using b by simp
    moreover have "restore h' (rev ((m, key, ov) # new)) = h"
      using c True by (simp add: restore_snoc setattr_twice setattr_same)
    moreover have "\<forall>t. t \<noteq> m \<longrightarrow> h' t = h t" using d by (simp add: setattr_other)
    ultimately show ?thesis using a by blast
  next
    case False
    then have "patch_aliases self h ov rw keys = Inr (self', h')"
      using Cons.prems by simp
    from Cons.IH [OF Cons.prems(1) this] show ?thesis .
  qed
qed

lemma patch_aliases_succeeds:
  assumes "target_module self = Some m"
  shows "\<exists>r. patch_aliases self h ov rw keys = Inr r"
  using assms
proof (induction keys arbitrary: self h)
  case Nil
  then show ?case by simp
next
  case (Cons key keys)
  show ?case
  proof (cases "getattr h m key = Inr ov")
    case True
    let ?s = "self\<lparr>patched := patched self @ [(m, key, ov)]\<rparr>"
    have step: "patch self h m key rw = Inr (?s, setattr h m key rw)"
      using Cons.prems True by (simp add: patch_plain)
    have "target_module ?s = Some m" using Cons.prems by simp
    from Cons.IH [OF this] show ?thesis
      using Cons.prems True step by simp
  next
    case False
    then show ?thesis using Cons.prems Cons.IH by simp
  qed
qed

lemma patch_succeeds:
  assumes "getattr h t a = Inr old"
  shows "\<exists>r. patch self h t a v = Inr r"
proof (cases "target_module self = None \<or> target_module self = Some t")
  case True
  then show ?thesis using assms by (simp add: patch_plain)
next
  case False
  then obtain m where m: "target_module self = Some m" "m \<noteq> t" by auto
  let ?s = "self\<lparr>patched := patched self @ [(t, a, old)]\<rparr>"
  have "target_module ?s = Some m" using m by simp
  from patch_aliases_succeeds [OF this]
  show ?thesis using assms m by (simp add: patch.simps Let_def)
qed

lemma patch_stack:
  assumes "patch self h t a v = Inr (self', h')"
  shows "target_module self' = target_module self
         \<and> (\<exists>new. patched self' = patched self @ new \<and> restore h' (rev new) = h)
         \<and> getattr h' t a = Inr v"
proof -
  from assms obtain old where old: "getattr h t a = Inr old"
    by (cases "getattr h t a") (auto simp: patch.simps)
  let ?s = "self\<lparr>patched := patched self @ [(t, a, old)]\<rparr>"
  let ?h = "setattr h t a v"
  have undo: "restore ?h (rev [(t, a, old)]) = h"
    using old by (simp add: restore_Cons restore_Nil setattr_twice setattr_same)
  show ?thesis
  proof (cases "target_module self = None \<or> target_module self = Some t")
    case True
    then have "self' = ?s" "h' = ?h" using assms old by (simp_all add: patch_plain)
    then show ?thesis using undo by (auto simp: getattr_setattr)
  next
    case False
    then obtain m where m: "target_module self = Some m" "m \<noteq> t" by auto
    have tm: "target_module ?s = Some m" using m by simp
    have al: "patch_aliases ?s ?h old v (map fst (?h m)) = Inr (self', h')"
      using assms old m by (simp add: patch.simps Let_def)
    from patch_aliases_stack [OF tm al] obtain new where
      a: "target_module self' = Some m" and
      b: "patched self' = patched ?s @ new" and
      c: "restore h' (rev new) = ?h" and
      d: "\<forall>t. t \<noteq> m \<longrightarrow> h' t = ?h t" by blast
    have "patched self' = patched self @ ((t, a, old) # new)" using b by simp
    moreover have "restore h' (rev ((t, a, old) # new)) = h"
      using c old by (simp add: restore_snoc setattr_twice setattr_same)
    moreover have "getattr h' t a = Inr v"
      using d m by (simp add: getattr_def setattr_def update_conv')
    ultimately show ?thesis using a m by auto
  qed
qed

lemma patch_calls_stack:
  assumes "patch_calls self h reqs = Inr (self', h')"
  shows "target_module self' = target_module self
         \<and> (\<exists>new. patched self' = patched self @ new \<and> restore h' (rev new) = h)"
  using assms
proof (induction reqs arbitrary: self h)
  case Nil
  then show ?case by (auto simp: restore_Nil)
next
  case (Cons req reqs)
  obtain t a v where req: "req = (t, a, v)" by (cases req)
  from Cons.prems req obtain s1 h1 where
    one: "patch self h t a v = Inr (s1, h1)" and
    rest: "patch_calls s1 h1 reqs = Inr (self', h')"
    by (auto split: sum.splits)
  from patch_stack [OF one] obtain n1 where
    a1: "target_module s1 = target_module self" and
    b1: "patched s1 = patched self @ n1" and c1: "restore h1 (rev n1) = h" by blast
  from Cons.IH [OF rest] obtain n2 where
    a2: "target_module self' = target_module s1" and
    b2: "patched self' = patched s1 @ n2" and c2: "restore h' (rev n2) = h1" by blast
  have "patched self' = patched self @ (n1 @ n2)" using b1 b2 by simp
  moreover have "restore h' (rev (n1 @ n2)) = h"
    using c1 c2 by (simp add: restore_append)
  ultimately show ?case using a1 a2 by auto
qed

subsection \<open>Writing the records back twice\<close>

text \<open>
  Two writes to different names commute when the name written last is already bound, and a
  write is absorbed by a later write to the same name. So a second pass over the records
  ends in the state the first pass left.
\<close>

lemma keys_setattr:
  "fst ` set (setattr h t a v t') =
     (if t' = t then insert a (fst ` set (h t)) else fst ` set (h t'))"
  by (simp add: setattr_def dom_update)

lemma alist_update_swap:
  "k \<in> fst ` set al \<Longrightarrow> k \<noteq> k' \<Longrightarrow>
     AList.update k v (AList.update k' v' al) = AList.update k' v' (AList.update k v al)"
  by (induction al) auto

lemma setattr_swap:
  assumes "a \<in> fst ` set (h t)" and "(t, a) \<noteq> (t', a')"
  shows "setattr (setattr h t' a' v') t a v = setattr (setattr h t a v) t' a' v'"
proof (cases "t = t'")
  case True
  then have "a \<noteq> a'" using assms(2) by simp
  with assms(1)
  have "AList.update a v (AList.update a' v' (h t)) = AList.update a' v' (AList.update a v (h t))"
    by (rule alist_update_swap)
  then show ?thesis using True by (simp add: setattr_def)
next
  case False
  then show ?thesis by (auto simp: setattr_def fun_upd_twist)
qed

lemma restore_absorbs:
  assumes "a \<in> fst ` set (h t)" and "(t, a) \<in> (\<lambda>(t, a, v). (t, a)) ` set ws"
  shows "restore (setattr h t a v) ws = restore h ws"
  using assms
proof (induction ws arbitrary: h)
  case Nil
  then show ?case by simp
next
  case (Cons w ws)
  obtain t' a' v' where w: "w = (t', a', v')" by (cases w)
  show ?case
  proof (cases "(t', a') = (t, a)")
    case True
    then show ?thesis by (simp add: w restore_Cons setattr_twice)
  next
    case False
    then have later: "(t, a) \<in> (\<lambda>(t, a, v). (t, a)) ` set ws"
      using Cons.prems(2) w by auto
    have present: "a \<in> fst ` set (setattr h t' a' v' t)"
      using Cons.prems(1) by (auto simp: keys_setattr)
    have "restore (setattr h t a v) (w # ws) = restore (setattr (setattr h t a v) t' a' v') ws"
      by (simp add: w restore_Cons)
    also have "\<dots> = restore (setattr (setattr h t' a' v') t a v) ws"
      using setattr_swap [where h = h and t = t and a = a and t' = t' and a' = a' and v = v and v' = v']
        Cons.prems(1) False by auto
    also have "\<dots> = restore (setattr h t' a' v') ws"
      using Cons.IH [of "setattr h t' a' v'"] present later by blast
    finally show ?thesis by (simp add: w restore_Cons)
  qed
qed

lemma keys_restore: "fst ` set (h t) \<subseteq> fst ` set (restore h ws t)"
proof (induction ws arbitrary: h)
  case Nil
  then show ?case by (simp add: restore_Nil)
next
  case (Cons w ws)
  obtain t' a' v' where w: "w = (t', a', v')" by (cases w)
  have "fst ` set (h t) \<subseteq> fst ` set (setattr h t' a' v' t)"
    by (auto simp: keys_setattr)
  also have "\<dots> \<subseteq> fst ` set (restore (setattr h t' a' v') ws t)"
    by (rule Cons.IH)
  finally show ?case by (simp add: w restore_Cons)
qed

lemma getattr_restore_untouched:
  assumes "(t, a) \<notin> (\<lambda>(t, a, v). (t, a)) ` set ws"
  shows "getattr (restore h ws) t a = getattr h t a"
  using assms
proof (induction ws arbitrary: h)
  case Nil
  then show ?case by (simp add: restore_Nil)
next
  case (Cons w ws)
  obtain t' a' v' where w: "w = (t', a', v')" by (cases w)
  from Cons.prems w have ne: "\<not> (t = t' \<and> a = a')" and
    rest: "(t, a) \<notin> (\<lambda>(t, a, v). (t, a)) ` set ws" by auto
  show ?case
    using Cons.IH [OF rest, of "setattr h t' a' v'"] ne
    by (simp add: w restore_Cons getattr_setattr)
qed

lemma restore_idem: "restore (restore h ws) ws = restore h ws"
proof (induction ws arbitrary: h)
  case Nil
  then show ?case by (simp add: restore_Nil)
next
  case (Cons w ws)
  obtain t a v where w: "w = (t, a, v)" by (cases w)
  let ?x = "setattr h t a v"
  let ?y = "restore ?x ws"
  have present: "a \<in> fst ` set (?y t)"
    using keys_restore [of ?x t ws] by (auto simp: keys_setattr)
  have "setattr ?y t a v = ?y \<or> restore (setattr ?y t a v) ws = restore ?y ws"
  proof (cases "(t, a) \<in> (\<lambda>(t, a, v). (t, a)) ` set ws")
    case True
    have "restore (setattr ?y t a v) ws = restore ?y ws"
      using restore_absorbs [where h = ?y and t = t and a = a and v = v and ws = ws] present True
      by blast
    then show ?thesis by simp
  next
    case False
    then have "getattr ?y t a = Inr v"
      by (simp add: getattr_restore_untouched getattr_setattr)
    then show ?thesis by (simp add: setattr_same)
  qed
  then have "restore (setattr ?y t a v) ws = restore ?y ws" by auto
  then show ?case by (simp add: w restore_Cons Cons.IH)
qed

text \<open>
  C10. \<^verbatim>\<open>unpatch\<close> leaves the patcher, and so its patch records, as they were, and a
  second \<^verbatim>\<open>unpatch\<close> right after the first changes nothing: it writes the same recorded
  values back, and the whole store is as the first \<^verbatim>\<open>unpatch\<close> left it. This holds for
  every patcher and every store, whatever calls produced them.
\<close>

theorem unpatch_idempotent:
  "fst (unpatch self h) = self
   \<and> patched (fst (unpatch self h)) = patched self
   \<and> unpatch (fst (unpatch self h)) (snd (unpatch self h)) = unpatch self h"
  by (simp add: unpatch_def restore_idem)

subsection \<open>Patching and unpatching\<close>

lemma patch_calls_same_attr:
  assumes "getattr h t a = Inr V"
  shows "\<exists>self' h'. patch_calls self h (map (\<lambda>v. (t, a, v)) vs) = Inr (self', h')
           \<and> getattr h' t a = Inr (last (V # vs))"
  using assms
proof (induction vs arbitrary: self h V)
  case Nil
  then show ?case by simp
next
  case (Cons v vs)
  from patch_succeeds [OF Cons.prems, of self v] obtain s1 h1 where
    one: "patch self h t a v = Inr (s1, h1)" by auto
  from patch_stack [OF one] have "getattr h1 t a = Inr v" by simp
  from Cons.IH [OF this, of s1] show ?case using one by simp
qed

lemma patch_calls_same_attr_plain:
  assumes "getattr h t a = Inr V"
    and "target_module self = None \<or> target_module self = Some t"
  shows "patch_calls self h (map (\<lambda>v. (t, a, v)) vs) =
           Inr (self\<lparr>patched := patched self @ map (\<lambda>x. (t, a, x)) (butlast (V # vs))\<rparr>,
                if vs = [] then h else setattr h t a (last vs))"
  using assms
proof (induction vs arbitrary: self h V)
  case Nil
  then show ?case by simp
next
  case (Cons v vs)
  let ?s = "self\<lparr>patched := patched self @ [(t, a, V)]\<rparr>"
  let ?h = "setattr h t a v"
  have one: "patch self h t a v = Inr (?s, ?h)"
    using Cons.prems by (simp add: patch_plain)
  have g: "getattr ?h t a = Inr v" by (simp add: getattr_setattr)
  have tm: "target_module ?s = None \<or> target_module ?s = Some t"
    using Cons.prems(2) by simp
  show ?case
    using Cons.IH [OF g tm] one by (simp add: setattr_twice)
qed

lemma getattr_restore_same_attr:
  "getattr (restore h (map (\<lambda>x. (t, a, x)) ws)) t a =
     (if ws = [] then getattr h t a else Inr (last ws))"
  by (induction ws rule: rev_induct) (simp_all add: restore_Nil restore_snoc getattr_setattr)

lemma last_take_rev:
  assumes "0 < k" and "k \<le> length xs"
  shows "last (take k (rev xs)) = xs ! (length xs - k)"
proof -
  have ne: "take k (rev xs) \<noteq> []" using assms by (cases xs) auto
  have "last (take k (rev xs)) = take k (rev xs) ! (k - 1)"
    using assms by (simp add: last_conv_nth [OF ne] min_def)
  also have "\<dots> = rev xs ! (k - 1)" using assms by simp
  also have "\<dots> = xs ! (length xs - Suc (k - 1))"
    using assms by (intro rev_nth) simp
  finally show ?thesis using assms by simp
qed

lemma unwind_index:
  assumes "k \<le> length vs"
  shows "(if take k (rev (butlast (V # vs))) = [] then last (V # vs)
          else last (take k (rev (butlast (V # vs))))) = (V # vs) ! (length vs - k)"
proof -
  define pre where "pre = butlast (V # vs)"
  have len: "length pre = length vs" by (simp add: pre_def)
  show ?thesis
  proof (cases "k = 0")
    case True
    then show ?thesis by (simp add: last_conv_nth)
  next
    case False
    then have k: "0 < k" "k \<le> length pre" using assms len by simp_all
    then have ne: "take k (rev pre) \<noteq> []" by (cases pre) auto
    have "last (take k (rev pre)) = pre ! (length pre - k)"
      using k by (rule last_take_rev)
    also have "\<dots> = (V # vs) ! (length vs - k)"
      unfolding pre_def len [unfolded pre_def] using k len
      by (intro nth_butlast) (simp add: pre_def)
    finally show ?thesis using ne by (simp only: pre_def if_False)
  qed
qed

text \<open>
  C3. On a new patcher, with or without a target module, one or more \<^verbatim>\<open>patch\<close> calls
  on an attribute that holds \<open>V\<close> all succeed and leave the last replacement in place;
  \<^verbatim>\<open>unpatch\<close> then gives back the store as it was before the first call, so the attribute
  holds \<open>V\<close> again. Without a target module the records are the value before each call, in
  the order of the calls, and writing back the \<open>k\<close> most recent records, as
  \<^verbatim>\<open>unpatch\<close> does first, leaves the attribute at the value it had before the \<open>k\<close>
  most recent calls: the patches unwind last in, first out. The same restoration holds after
  any run of successful \<^verbatim>\<open>patch\<close> calls on a new patcher, on this attribute or on others.
\<close>

theorem patch_unpatch_roundtrip:
  fixes h :: "('o, 'v) heap"
  assumes "getattr h target attrname = Inr V"
  shows "(\<exists>self' h'.
           patch_calls (Patcher_init tm) h (map (\<lambda>v. (target, attrname, v)) (v # vs)) = Inr (self', h')
           \<and> getattr h' target attrname = Inr (last (v # vs))
           \<and> snd (unpatch self' h') = h
           \<and> getattr (snd (unpatch self' h')) target attrname = Inr V
           \<and> (tm = None \<longrightarrow>
                patched self' = map (\<lambda>x. (target, attrname, x)) (butlast (V # v # vs))
                \<and> (\<forall>k \<le> length (v # vs).
                      getattr (restore h' (take k (rev (patched self')))) target attrname
                        = Inr ((V # v # vs) ! (length (v # vs) - k)))))
         \<and> (\<forall>reqs p1 h1. patch_calls (Patcher_init tm) h reqs = Inr (p1, h1)
                \<longrightarrow> snd (unpatch p1 h1) = h
                    \<and> getattr (snd (unpatch p1 h1)) target attrname = Inr V)"
proof -
  have every: "snd (unpatch p1 h1) = h \<and> getattr (snd (unpatch p1 h1)) target attrname = Inr V"
    if "patch_calls (Patcher_init tm) h reqs = Inr (p1, h1)" for reqs p1 h1
  proof -
    from patch_calls_stack [OF that] obtain new where
      "patched p1 = patched (Patcher_init tm :: ('o, 'v) Patcher) @ new"
      and "restore h1 (rev new) = h" by blast
    then have "snd (unpatch p1 h1) = h" by (simp add: unpatch_def Patcher_init_def)
    then show ?thesis using assms by simp
  qed
  let ?calls = "map (\<lambda>v. (target, attrname, v)) (v # vs)"
  let ?p = "Patcher_init tm :: ('o, 'v) Patcher"
  from patch_calls_same_attr [OF assms, of ?p "v # vs"] obtain self' h' where
    run: "patch_calls ?p h ?calls = Inr (self', h')" and
    cur: "getattr h' target attrname = Inr (last (v # vs))" by auto
  from patch_calls_stack [OF run] obtain new where
    recs: "patched self' = patched ?p @ new" and undone: "restore h' (rev new) = h" by blast
  then have restored: "snd (unpatch self' h') = h"
    by (simp add: unpatch_def Patcher_init_def)
  have lifo: "patched self' = map (\<lambda>x. (target, attrname, x)) (butlast (V # v # vs))
       \<and> (\<forall>k \<le> length (v # vs).
              getattr (restore h' (take k (rev (patched self')))) target attrname
                = Inr ((V # v # vs) ! (length (v # vs) - k)))" if none: "tm = None"
  proof -
    have "target_module ?p = None \<or> target_module ?p = Some target"
      using none by (simp add: Patcher_init_def)
    then have "patch_calls ?p h ?calls =
            Inr (?p\<lparr>patched := patched ?p @ map (\<lambda>x. (target, attrname, x)) (butlast (V # v # vs))\<rparr>,
                 if v # vs = [] then h else setattr h target attrname (last (v # vs)))"
      by (rule patch_calls_same_attr_plain [OF assms])
    with run have "self' = ?p\<lparr>patched := patched ?p @ map (\<lambda>x. (target, attrname, x)) (butlast (V # v # vs))\<rparr>"
      by (simp del: butlast.simps patch_calls.simps)
    then have recs: "patched self' = map (\<lambda>x. (target, attrname, x)) (butlast (V # v # vs))"
      by (simp add: Patcher_init_def del: butlast.simps)
    have "getattr (restore h' (take k (rev (patched self')))) target attrname
            = Inr ((V # v # vs) ! (length (v # vs) - k))" if k: "k \<le> length (v # vs)" for k
    proof -
      have "take k (rev (patched self'))
              = map (\<lambda>x. (target, attrname, x)) (take k (rev (butlast (V # v # vs))))"
        by (simp only: recs rev_map take_map)
      then have "getattr (restore h' (take k (rev (patched self')))) target attrname
              = (if take k (rev (butlast (V # v # vs))) = [] then Inr (last (V # v # vs))
                 else Inr (last (take k (rev (butlast (V # v # vs))))))"
        using cur by (simp only: getattr_restore_same_attr) simp
      also have "\<dots> = Inr (if take k (rev (butlast (V # v # vs))) = [] then last (V # v # vs)
                 else last (take k (rev (butlast (V # v # vs)))))"
        by simp
      also have "\<dots> = Inr ((V # v # vs) ! (length (v # vs) - k))"
        by (simp only: unwind_index [OF k])
      finally show ?thesis .
    qed
    with recs show ?thesis by blast
  qed
  have "\<exists>self' h'.
           patch_calls ?p h ?calls = Inr (self', h')
           \<and> getattr h' target attrname = Inr (last (v # vs))
           \<and> snd (unpatch self' h') = h
           \<and> getattr (snd (unpatch self' h')) target attrname = Inr V
           \<and> (tm = None \<longrightarrow>
                patched self' = map (\<lambda>x. (target, attrname, x)) (butlast (V # v # vs))
                \<and> (\<forall>k \<le> length (v # vs).
                      getattr (restore h' (take k (rev (patched self')))) target attrname
                        = Inr ((V # v # vs) ! (length (v # vs) - k))))"
    using run cur restored assms lifo by blast
  then show ?thesis using every by blast
qed

text \<open>
  Two patches of one attribute, from 1 to 2 to 3: the first record written back gives 2, and
  \<^verbatim>\<open>unpatch\<close> gives 1.
\<close>

theorem patch_unpatch_roundtrip_witness:
  "getattr ((\<lambda>_. [])(0 := [(''sep'', 1)])) (0::nat) ''sep'' = Inr (1::nat)
   \<and> (\<exists>self' h'.
         patch_calls (Patcher_init None) ((\<lambda>_. [])(0 := [(''sep'', 1)]))
           [(0::nat, ''sep'', 2::nat), (0, ''sep'', 3)] = Inr (self', h')
         \<and> getattr h' 0 ''sep'' = Inr 3
         \<and> patched self' = [(0, ''sep'', 1), (0, ''sep'', 2)]
         \<and> getattr (restore h' (take 1 (rev (patched self')))) 0 ''sep'' = Inr 2
         \<and> snd (unpatch self' h') = (\<lambda>_. [])(0 := [(''sep'', 1)]))"
proof -
  let ?h = "(\<lambda>_. [])(0 := [(''sep'', 1)]) :: (nat, nat) heap"
  have h: "getattr ?h 0 ''sep'' = Inr 1" by (simp add: getattr_def)
  from patch_unpatch_roundtrip [OF h, of None 2 "[3]", THEN conjunct1] obtain self' h' where
    r: "patch_calls (Patcher_init None) ?h (map (\<lambda>v. (0, ''sep'', v)) [2, 3]) = Inr (self', h')"
       "getattr h' 0 ''sep'' = Inr (last [2, 3])"
       "snd (unpatch self' h') = ?h"
       "patched self' = map (\<lambda>x. (0, ''sep'', x)) (butlast [1, 2, 3])"
       "\<forall>k \<le> length [2::nat, 3].
          getattr (restore h' (take k (rev (patched self')))) 0 ''sep''
            = Inr ([1, 2, 3] ! (length [2::nat, 3] - k))"
    by blast
  from r(5) have "getattr (restore h' (take 1 (rev (patched self')))) 0 ''sep'' = Inr ([1, 2, 3] ! (length [2::nat, 3] - 1))"
    by (simp del: take_Suc_Cons)
  then have "getattr (restore h' (take 1 (rev (patched self')))) 0 ''sep'' = Inr 2" by simp
  with r h show ?thesis by simp
qed

text \<open>
  C9. A new patcher has no patch record and entering it returns it as it is; a
  \<^verbatim>\<open>with\<close> statement whose body does nothing leaves the store unchanged.
  \<^verbatim>\<open>__exit__\<close> returns \<^verbatim>\<open>False\<close> and leaves the state of one \<^verbatim>\<open>unpatch\<close>. So
  the \<^verbatim>\<open>with\<close> statement ends with the outcome of its body, an exception included, and
  with the state one \<^verbatim>\<open>unpatch\<close> makes of the state the body left.
\<close>

theorem with_Patcher_unpatches_on_exit:
  "patched (enter (Patcher_init tm)) = []
   \<and> with_Patcher tm (\<lambda>p h. (Inr (), p, h)) h = (Inr (), Patcher_init tm, h)
   \<and> fst (exit self h exc) = False
   \<and> snd (exit self h exc) = unpatch self h
   \<and> with_Patcher tm body h =
        (case body (Patcher_init tm) h of (r, p1, h1) \<Rightarrow> (r, unpatch p1 h1))"
  by (auto simp: with_Patcher_def enter_def exit_def unpatch_def Patcher_init_def restore_def
           split: prod.splits sum.splits)

text \<open>A body that patches an attribute and then raises: the exception comes out, the attribute is back.\<close>
theorem with_Patcher_example:
  "with_Patcher None
     (\<lambda>p h. case patch p h (0::nat) ''sep'' (2::nat) of
               Inl e \<Rightarrow> (Inl e, p, h)
             | Inr (p', h') \<Rightarrow> (Inl ValueError, p', h'))
     ((\<lambda>_. [])(0 := [(''sep'', 1)]))
   = (Inl ValueError,
      \<lparr>patched = [(0, ''sep'', 1)], patched_osstat = [], target_module = None\<rparr>,
      (\<lambda>_. [])(0 := [(''sep'', 1)]))"
proof -
  define body :: "(nat, nat) Patcher \<Rightarrow> (nat, nat) heap \<Rightarrow> (exn + unit) \<times> (nat, nat) Patcher \<times> (nat, nat) heap"
    where "body = (\<lambda>p h. case patch p h 0 ''sep'' 2 of
               Inl e \<Rightarrow> (Inl e, p, h)
             | Inr (p', h') \<Rightarrow> (Inl ValueError, p', h'))"
  let ?h = "(\<lambda>_. [])(0 := [(''sep'', 1)]) :: (nat, nat) heap"
  have run: "body (Patcher_init None) ?h =
               (Inl ValueError,
                \<lparr>patched = [(0, ''sep'', 1)], patched_osstat = [], target_module = None\<rparr>,
                (\<lambda>_. [])(0 := [(''sep'', 2)]))"
    by (simp add: body_def patch.simps getattr_def setattr_def Patcher_init_def)
  have "with_Patcher None body ?h =
          (case body (Patcher_init None) ?h of (r, p1, h1) \<Rightarrow> (r, unpatch p1 h1))"
    using with_Patcher_unpatches_on_exit [of None ?h _ _ body] by blast
  also have "\<dots> = (Inl ValueError,
      \<lparr>patched = [(0, ''sep'', 1)], patched_osstat = [], target_module = None\<rparr>, ?h)"
    by (subst run) (simp add: unpatch_def restore_def setattr_def)
  finally show ?thesis by (simp only: body_def)
qed

subsection \<open>patch_today\<close>

lemma time_time_builtin:
  "getattr h Module_time ''time'' = Inr Builtin_time \<Longrightarrow> time_time fsub h clock = Inr clock"
  by (simp add: time_time_def)

lemma time_time_lambda:
  "getattr h Module_time ''time'' = Inr (Lambda_today time_now days) \<Longrightarrow>
     time_time fsub h clock = Inr (fsub time_now (days * 24 * 60 * 60))"
  by (simp add: time_time_def)

text \<open>
  C6. The claim says every later read of the time source is shifted by a constant offset,
  46 days in its example. The closure returns the time read once, when \<^verbatim>\<open>patch_today\<close>
  ran, minus the days: the patched clock stands still. With the call at 1583064000 (noon
  UTC on 2020-03-01) and the date 2020-01-15 asked for, a read one hour later, at 1583067600,
  returns 1579089600, the time of the call minus 46 days; 46 days before the time of that
  read is 1579093200. The values are whole numbers of seconds, on which the subtraction of
  floats is exact.
\<close>

theorem patch_today_clock_stands_still:
  "patch_today (\<lambda>t n. t - real_of_int n) (Patcher_init None)
     ((\<lambda>_. [])(Module_time := [(''time'', Builtin_time)])
        :: (nat pyobject, (real, nat) pyvalue) heap)
     (Date 2020 3 1) 1583064000 2020 1 15
     = Inr (\<lparr>patched = [(Module_time, ''time'', Builtin_time)], patched_osstat = [],
              target_module = None\<rparr>,
            (\<lambda>_. [])(Module_time := [(''time'', Lambda_today 1583064000 46)]))
   \<and> time_time (\<lambda>t n. t - real_of_int n)
        ((\<lambda>_. [])(Module_time := [(''time'', Lambda_today 1583064000 46)])
           :: (nat pyobject, (real, nat) pyvalue) heap)
        1583067600
     = Inr 1579089600
   \<and> (1583067600 :: real) - real_of_int (46 * 24 * 60 * 60) = 1579093200"
  by (simp add: patch_today_def date_def days_in_month_def time_time_def getattr_def
        setattr_def delta_days_def toordinal_def days_before_year_def days_before_month_def
        is_leap_def patch.simps Patcher_init_def)

text \<open>
  C6, amended. With the built-in clock in place and a valid date asked for,
  \<^verbatim>\<open>patch_today\<close> on a new patcher succeeds and binds \<^verbatim>\<open>time.time\<close> to the closure
  over the time read at the call and the difference in whole days between today and the date
  asked for. Every later \<^verbatim>\<open>time.time()\<close>, whatever the clock of the machine shows then,
  returns the same value: the time read at the call minus that many days in seconds, as the
  subtraction of floats gives it. After \<^verbatim>\<open>unpatch\<close> it returns what the clock shows.
\<close>

theorem patch_today_shifts_time:
  fixes h :: "('o pyobject, ('f, 'v) pyvalue) heap"
  assumes "getattr h Module_time ''time'' = Inr Builtin_time"
    and "date y m d = Inr new_today"
  shows "\<exists>self' h'.
           patch_today fsub (Patcher_init tm) h today clock y m d = Inr (self', h')
           \<and> getattr h' Module_time ''time''
                = Inr (Lambda_today clock (delta_days today new_today))
           \<and> (\<forall>later. time_time fsub h' later
                = Inr (fsub clock (delta_days today new_today * 24 * 60 * 60)))
           \<and> (\<forall>later. time_time fsub (snd (unpatch self' h')) later = Inr later)"
proof -
  let ?p = "Patcher_init tm :: ('o pyobject, ('f, 'v) pyvalue) Patcher"
  let ?f = "Lambda_today clock (delta_days today new_today) :: ('f, 'v) pyvalue"
  from patch_succeeds [OF assms(1), of ?p ?f] obtain self' h' where
    one: "patch ?p h Module_time ''time'' ?f = Inr (self', h')" by auto
  have run: "patch_today fsub ?p h today clock y m d = Inr (self', h')"
    using assms one by (simp add: patch_today_def time_time_builtin)
  from patch_stack [OF one] obtain new where
    installed: "getattr h' Module_time ''time'' = Inr ?f" and
    recs: "patched self' = patched ?p @ new" and undone: "restore h' (rev new) = h" by blast
  have restored: "snd (unpatch self' h') = h"
    using recs undone by (simp add: unpatch_def Patcher_init_def)
  show ?thesis
    using run installed restored assms(1)
    by (simp add: time_time_lambda time_time_builtin)
qed

text \<open>
  The example of the claim, with the subtraction exact: from 2020-03-01 to 2020-01-15 there
  are 46 days, and every read of the patched clock gives 46 days before the time of the call.
\<close>

theorem patch_today_2020_example:
  "date 2020 1 15 = Inr (Date 2020 1 15)
   \<and> delta_days (Date 2020 3 1) (Date 2020 1 15) = 46
   \<and> (\<forall>clock. \<exists>self' h'.
         patch_today (\<lambda>t n. t - real_of_int n) (Patcher_init None)
           ((\<lambda>_. [])(Module_time := [(''time'', Builtin_time)])
              :: (nat pyobject, (real, nat) pyvalue) heap)
           (Date 2020 3 1) clock 2020 1 15 = Inr (self', h')
         \<and> (\<forall>later. time_time (\<lambda>t n. t - real_of_int n) h' later = Inr (clock - 46 * 86400))
         \<and> (\<forall>later. time_time (\<lambda>t n. t - real_of_int n) (snd (unpatch self' h')) later
               = Inr later))"
proof -
  let ?h = "(\<lambda>_. [])(Module_time := [(''time'', Builtin_time)])
              :: (nat pyobject, (real, nat) pyvalue) heap"
  let ?fsub = "\<lambda>(t::real) n. t - real_of_int n"
  have h: "getattr ?h Module_time ''time'' = Inr Builtin_time" by (simp add: getattr_def)
  have d: "date 2020 1 15 = Inr (Date 2020 1 15)"
    by (simp add: date_def days_in_month_def)
  have dd: "delta_days (Date 2020 3 1) (Date 2020 1 15) = 46"
    by (simp add: delta_days_def toordinal_def days_before_year_def days_before_month_def
          is_leap_def)
  have "\<exists>self' h'.
         patch_today ?fsub (Patcher_init None) ?h (Date 2020 3 1) clock 2020 1 15 = Inr (self', h')
         \<and> (\<forall>later. time_time ?fsub h' later = Inr (clock - 46 * 86400))
         \<and> (\<forall>later. time_time ?fsub (snd (unpatch self' h')) later = Inr later)" for clock
  proof -
    from patch_today_shifts_time [OF h d, of ?fsub None "Date 2020 3 1" clock]
    obtain self' h' where
      "patch_today ?fsub (Patcher_init None) ?h (Date 2020 3 1) clock 2020 1 15 = Inr (self', h')"
      "\<forall>later. time_time ?fsub h' later = Inr (clock - 46 * 86400)"
      "\<forall>later. time_time ?fsub (snd (unpatch self' h')) later = Inr later"
      by (auto simp: dd)
    then show ?thesis by blast
  qed
  with d dd show ?thesis by blast
qed

section \<open>Properties of argument unification\<close>

text \<open>\<^verbatim>\<open>setdefault\<close> never replaces a value, and binds a free name to the first value offered.\<close>

lemma setdefault_keeps: "result k = Some v \<Longrightarrow> setdefault result k' v' k = Some v"
  by (auto simp: setdefault_def)

lemma setdefaults_keeps: "result k = Some v \<Longrightarrow> setdefaults result kvs k = Some v"
proof (induction kvs arbitrary: result)
  case Nil
  then show ?case by simp
next
  case (Cons kv kvs)
  obtain k' v' where kv: "kv = (k', v')" by (cases kv)
  have "setdefault result k' v' k = Some v" using Cons.prems by (rule setdefault_keeps)
  then show ?case using Cons.IH [of "setdefault result k' v'"] kv by simp
qed

lemma setdefaults_fills:
  "distinct (map fst kvs) \<Longrightarrow> (k, v) \<in> set kvs \<Longrightarrow> result k = None \<Longrightarrow>
     setdefaults result kvs k = Some v"
proof (induction kvs arbitrary: result)
  case Nil
  then show ?case by simp
next
  case (Cons kv kvs)
  obtain k' v' where kv: "kv = (k', v')" by (cases kv)
  show ?case
  proof (cases "k' = k")
    case True
    then have "v' = v" using Cons.prems kv by (auto simp: rev_image_eqI)
    then show ?thesis using True kv Cons.prems(3)
      by (simp add: setdefault_def setdefaults_keeps)
  next
    case False
    then have "setdefault result k' v' k = None" using Cons.prems(3)
      by (simp add: setdefault_def)
    then show ?thesis using Cons.IH [of "setdefault result k' v'"] Cons.prems False kv
      by auto
  qed
qed

text \<open>A name given by keyword keeps the keyword's value.\<close>

lemma unify_args_keyword_wins:
  assumes "kwargs k = Some v"
  shows "\<exists>r. unify_args (Function slf dflts n names) args kwargs None = Inr r \<and> r k = Some v"
  using assms by (simp add: unify_args_def Let_def setdefaults_keeps)

text \<open>
  When the defaults are at least as many as the parameters left without a positional
  argument, each such parameter not given by keyword gets its own declared default: the
  defaults belong to the last parameters, so parameter \<open>i\<close> of \<open>n\<close> has the default at
  position \<open>length ds - (n - i)\<close>.
\<close>

lemma unify_args_fills_defaults:
  assumes "length args < n" and "n - length args \<le> length ds"
    and "n \<le> length names" and "distinct names"
    and "length args \<le> i" and "i < n" and "kwargs (names ! i) = None"
  shows "\<exists>r. unify_args (Function None (Some ds) n names) args kwargs None = Inr r
           \<and> r (names ! i) = Some (ds ! (length ds - (n - i)))"
proof -
  let ?args2 = "args @ drop (length ds - (n - length args)) ds"
  have sl: "slice_from ds (- int (n - length args)) = drop (length ds - (n - length args)) ds"
  proof -
    have "nat (max (int (length ds) + - int (n - length args)) 0) = length ds - (n - length args)"
      by (simp add: max_def) linarith
    then show ?thesis using assms(1) by (simp add: slice_from_def Let_def)
  qed
  have len: "length ?args2 = n" using assms(1,2) by simp
  have nth: "?args2 ! i = ds ! (length ds - (n - i))"
    using assms(1,2,5,6) by (simp add: nth_append)
  have "(names ! i, ?args2 ! i) \<in> set (zip names ?args2)"
    using assms(3,6) len by (auto simp: set_zip)
  moreover have "distinct (map fst (zip names ?args2))"
    using assms(3,4) len by (simp add: map_fst_zip_take)
  ultimately have filled: "setdefaults kwargs (zip names ?args2) (names ! i) = Some (?args2 ! i)"
    using assms(7) by (intro setdefaults_fills)
  have "unify_args (Function None (Some ds) n names) args kwargs None
                  = Inr (setdefaults kwargs (zip names ?args2))"
    unfolding sl [symmetric] using assms(1) by (simp add: unify_args_def Let_def)
  with filled show ?thesis by (simp only: nth) simp
qed

text \<open>
  C7. The three examples for \<^verbatim>\<open>def foo(bar, baz=10)\<close>.
\<close>

theorem unify_args_foo:
  "unify_args (Function None (Some [VInt 10]) 2 [''bar'', ''baz'']) [VInt 42] Map.empty None
     = Inr [''bar'' \<mapsto> VInt 42, ''baz'' \<mapsto> VInt 10]
   \<and> unify_args (Function None (Some [VInt 10]) 2 [''bar'', ''baz'']) [VInt 42]
        [''baz'' \<mapsto> VInt 23] None
     = Inr [''bar'' \<mapsto> VInt 42, ''baz'' \<mapsto> VInt 23]
   \<and> unify_args (Function None (Some [VInt 10]) 2 [''bar'', ''baz'']) [VInt 42] Map.empty
        (Some [''bar''])
     = Inr [''baz'' \<mapsto> VInt 10]"
  by (auto simp: unify_args_def slice_from_def setdefault_def fun_eq_iff)

text \<open>
  The \<^verbatim>\<open>else\<close> branch: for a callable without \<^verbatim>\<open>__code__\<close>, the result is the keyword
  arguments with the tuple of all positional arguments under \<^verbatim>\<open>'args'\<close>.
\<close>

lemma unify_args_opaque:
  "unify_args Opaque args kwargs None = Inr (kwargs(''args'' \<mapsto> VTuple args))
   \<and> unify_args Opaque args kwargs (Some []) = Inr (kwargs(''args'' \<mapsto> VTuple args))"
  by (simp add: unify_args_def)

text \<open>
  C8. The docstring says that for a function that takes \<^verbatim>\<open>*args\<close> the positional arguments
  are put under \<^verbatim>\<open>'args'\<close>, and the comment on the \<^verbatim>\<open>else\<close> branch takes that branch
  for this case. A function whose only parameter is \<^verbatim>\<open>*args\<close> has \<^verbatim>\<open>__code__\<close>
  though, with \<^verbatim>\<open>co_argcount\<close> 0 and \<^verbatim>\<open>co_varnames\<close> \<^verbatim>\<open>('args',)\<close>: it takes the
  first branch, where \<^verbatim>\<open>zip\<close> pairs the one name with the first positional argument. Called
  with 1, 2, 3 the result has 1 under \<^verbatim>\<open>'args'\<close>, not the tuple of the three as the claim
  says; called with no argument it has no \<^verbatim>\<open>'args'\<close> at all, where the claim has the empty
  tuple.
\<close>

theorem unify_args_declared_star_args:
  "unify_args (Function None None 0 [''args'']) [VInt 1, VInt 2, VInt 3] Map.empty None
     = Inr [''args'' \<mapsto> VInt 1]
   \<and> unify_args (Function None None 0 [''args'']) [] Map.empty None = Inr Map.empty"
  by (auto simp: unify_args_def setdefault_def fun_eq_iff)

text \<open>
  C2. The claim holds when every parameter left without a positional argument has a default
  (\<open>unify_args_fills_defaults\<close>), and a keyword is never overwritten
  (\<open>unify_args_keyword_wins\<close>). It fails when a parameter without default is given by keyword:
  the slice \<^verbatim>\<open>defaults[-required_arg_count:]\<close> is then the whole, shorter, tuple of defaults
  and \<^verbatim>\<open>zip\<close> pairs it with the wrong names. For \<^verbatim>\<open>def f(a, b=2, c=3)\<close> called as
  \<^verbatim>\<open>f(a=1)\<close> the result gives \<^verbatim>\<open>b\<close> the default of \<^verbatim>\<open>c\<close> and has no
  \<^verbatim>\<open>c\<close>, where the claim has \<^verbatim>\<open>b\<close> at 2 and \<^verbatim>\<open>c\<close> at 3.
\<close>

theorem unify_args_keyword_for_required:
  "unify_args (Function None (Some [VInt 2, VInt 3]) 3 [''a'', ''b'', ''c'']) []
     [''a'' \<mapsto> VInt 1] None
     = Inr [''a'' \<mapsto> VInt 1, ''b'' \<mapsto> VInt 3]"
  by (auto simp: unify_args_def slice_from_def setdefault_def fun_eq_iff)

end
